theory Spec2Isabelle
  imports Complex_Main
begin

section \<open>Python values used by lmgec.py\<close>

text \<open>
  The program is a Python script. Token lists are \<open>string list\<close>, Python floats are
  modelled as \<open>real\<close> (the value \<open>float("-inf")\<close> is the \<open>None\<close> of a \<open>real option\<close>),
  exceptions are values of type \<open>error\<close>, and a dictionary whose iteration order
  matters is an association list kept in insertion order.  Characters are the 8-bit
  \<open>char\<close> of HOL; the case and whitespace predicates below are those of Python on
  ASCII text, and a byte beyond ASCII counts as uncased, non-alphabetic and non-space.
\<close>

datatype error = IndexError | ZeroDivisionError

type_synonym sentence = "string list"

text \<open>An edit identifier \<open>(tok_id, cand, weight)\<close> and the dictionary keyed by it.\<close>

type_synonym edit = "int \<times> string \<times> real"
type_synonym edit_dict = "(edit \<times> sentence) list"

text \<open>\<open>d[k] = v\<close> on an insertion-ordered dictionary: an existing key keeps its place.\<close>

primrec dict_setitem :: "'k \<Rightarrow> 'v \<Rightarrow> ('k \<times> 'v) list \<Rightarrow> ('k \<times> 'v) list" where
  "dict_setitem k v [] = [(k, v)]"
| "dict_setitem k v (p # ps) = (if fst p = k then (k, v) # ps else p # dict_setitem k v ps)"

text \<open>\<open>d.update(e)\<close>: the items of \<open>e\<close> are stored into \<open>d\<close> in the order of \<open>e\<close>.\<close>

primrec dict_update :: "('k \<times> 'v) list \<Rightarrow> ('k \<times> 'v) list \<Rightarrow> ('k \<times> 'v) list" where
  "dict_update d [] = d"
| "dict_update d (p # ps) = dict_update (dict_setitem (fst p) (snd p) d) ps"

text \<open>List indexing \<open>xs[k]\<close> with Python's negative indices; \<open>None\<close> is IndexError.\<close>

definition py_index :: "nat \<Rightarrow> int \<Rightarrow> nat option" where
  "py_index n k =
     (if 0 \<le> k \<and> k < int n then Some (nat k)
      else if k < 0 \<and> - int n \<le> k then Some (nat (int n + k))
      else None)"

text \<open>\<open>list(filter(None, new_sent))\<close>: the empty strings are dropped.\<close>

definition filter_None :: "sentence \<Rightarrow> sentence" where
  "filter_None xs = filter (\<lambda>t. t \<noteq> []) xs"

text \<open>\<open>" ".join(sent)\<close>\<close>

fun join :: "sentence \<Rightarrow> string" where
  "join [] = []"
| "join [t] = t"
| "join (t # u # ts) = t @ CHR '' '' # join (u # ts)"

section \<open>generateCands\<close>

text \<open>
  One pass of the loop body of \<open>generateCands\<close> for the candidate \<open>cand\<close>: copy the
  sentence, store the candidate at \<open>tok_id\<close> (IndexError when out of range), drop the
  empty strings and record the result only when it is a non-empty list.
\<close>

definition generateCands_step ::
  "int \<Rightarrow> sentence \<Rightarrow> real \<Rightarrow> string \<Rightarrow> edit_dict \<Rightarrow> error + edit_dict" where
  "generateCands_step tok_id sent weight cand edit_dict =
     (case py_index (length sent) tok_id of
        None \<Rightarrow> Inl IndexError
      | Some k \<Rightarrow>
          (let new_sent = filter_None (sent[k := cand]);
               edit_id = (tok_id, cand, weight)
           in if new_sent \<noteq> [] then Inr (dict_setitem edit_id new_sent edit_dict)
              else Inr edit_dict))"

fun generateCands_loop ::
  "int \<Rightarrow> sentence \<Rightarrow> real \<Rightarrow> string list \<Rightarrow> edit_dict \<Rightarrow> error + edit_dict" where
  "generateCands_loop tok_id sent weight [] edit_dict = Inr edit_dict"
| "generateCands_loop tok_id sent weight (cand # cands) edit_dict =
     (case generateCands_step tok_id sent weight cand edit_dict of
        Inl e \<Rightarrow> Inl e
      | Inr edit_dict' \<Rightarrow> generateCands_loop tok_id sent weight cands edit_dict')"

definition generateCands :: "int \<Rightarrow> string list \<Rightarrow> sentence \<Rightarrow> real \<Rightarrow> error + edit_dict" where
  "generateCands tok_id cands sent weight = generateCands_loop tok_id sent weight cands []"

section \<open>Resources and the linguistic analyser\<close>

text \<open>Python's \<open>str.isalpha\<close>, \<open>str.isupper\<close> and the case of one character, on ASCII.\<close>

definition isupper_c :: "char \<Rightarrow> bool" where
  "isupper_c c = (65 \<le> (of_char c :: nat) \<and> (of_char c :: nat) \<le> 90)"

definition islower_c :: "char \<Rightarrow> bool" where
  "islower_c c = (97 \<le> (of_char c :: nat) \<and> (of_char c :: nat) \<le> 122)"

definition isalpha :: "string \<Rightarrow> bool" where
  "isalpha s = (s \<noteq> [] \<and> list_all (\<lambda>c. isupper_c c \<or> islower_c c) s)"

text \<open>
  The resource dictionary built by \<open>loadResources\<close>.  The language model, the tagger
  and the spellchecker are external libraries and enter as functions:
  \<open>lm\<close> is \<open>res_dict["lm"].score(text, bos=True, eos=True)\<close>, \<open>nlp_text\<close> is the
  \<open>text\<close> of the spaCy document made from a token list, \<open>nlp_lemma\<close> the \<open>lemma_\<close> of
  its token at a position, \<open>gb_spell\<close> and \<open>gb_suggest\<close> the two spellchecker calls.
  The sets \<open>gb_infl[lemma]\<close>, \<open>det\<close> and \<open>prep\<close> are given by their iteration order.
\<close>

record resources =
  lm :: "string \<Rightarrow> real"
  nlp_text :: "sentence \<Rightarrow> string"
  nlp_lemma :: "sentence \<Rightarrow> nat \<Rightarrow> string"
  gb_spell :: "string \<Rightarrow> bool"
  gb_suggest :: "string \<Rightarrow> string list"
  gb_infl :: "string \<Rightarrow> string list option"
  det :: "string list"
  prep :: "string list"

record token =
  tok_text :: string
  tok_i :: nat
  tok_lemma :: string

record doc =
  doc_text :: string
  doc_toks :: "token list"

text \<open>
  \<open>processWithSpacy\<close>: \<open>tokens_from_list\<close> makes one token per list element, in order,
  and the tagger adds the lemmas.
\<close>

definition processWithSpacy :: "sentence \<Rightarrow> resources \<Rightarrow> doc" where
  "processWithSpacy sent res =
     \<lparr>doc_text = nlp_text res sent,
      doc_toks = map (\<lambda>k. \<lparr>tok_text = sent ! k, tok_i = k, tok_lemma = nlp_lemma res sent k\<rparr>)
                   [0..<length sent]\<rparr>"

section \<open>processSent\<close>

text \<open>\<open>cand_dict.update(generateCands(...))\<close>, where the call may raise.\<close>

definition update_from :: "edit_dict \<Rightarrow> error + edit_dict \<Rightarrow> error + edit_dict" where
  "update_from cand_dict r =
     (case r of Inl e \<Rightarrow> Inl e | Inr d \<Rightarrow> Inr (dict_update cand_dict d))"

text \<open>The four blocks of the token loop: spellchecking, morphology, determiners, prepositions.\<close>

definition spell_cands :: "resources \<Rightarrow> real \<Rightarrow> sentence \<Rightarrow> token \<Rightarrow> edit_dict \<Rightarrow> error + edit_dict" where
  "spell_cands res threshold sent tok cand_dict =
     (if isalpha (tok_text tok) \<and> \<not> gb_spell res (tok_text tok) then
        (let cands = gb_suggest res (tok_text tok)
         in if cands \<noteq> []
            then update_from cand_dict (generateCands (int (tok_i tok)) cands sent threshold)
            else Inr cand_dict)
      else Inr cand_dict)"

definition morph_cands :: "resources \<Rightarrow> real \<Rightarrow> sentence \<Rightarrow> token \<Rightarrow> edit_dict \<Rightarrow> error + edit_dict" where
  "morph_cands res threshold sent tok cand_dict =
     (case gb_infl res (tok_lemma tok) of
        Some cands \<Rightarrow> update_from cand_dict (generateCands (int (tok_i tok)) cands sent threshold)
      | None \<Rightarrow> Inr cand_dict)"

definition det_cands :: "resources \<Rightarrow> real \<Rightarrow> sentence \<Rightarrow> token \<Rightarrow> edit_dict \<Rightarrow> error + edit_dict" where
  "det_cands res threshold sent tok cand_dict =
     (if tok_text tok \<in> set (det res)
      then update_from cand_dict (generateCands (int (tok_i tok)) (det res) sent threshold)
      else Inr cand_dict)"

definition prep_cands :: "resources \<Rightarrow> real \<Rightarrow> sentence \<Rightarrow> token \<Rightarrow> edit_dict \<Rightarrow> error + edit_dict" where
  "prep_cands res threshold sent tok cand_dict =
     (if tok_text tok \<in> set (prep res)
      then update_from cand_dict (generateCands (int (tok_i tok)) (prep res) sent threshold)
      else Inr cand_dict)"

definition tok_cands :: "resources \<Rightarrow> real \<Rightarrow> sentence \<Rightarrow> token \<Rightarrow> edit_dict \<Rightarrow> error + edit_dict" where
  "tok_cands res threshold sent tok cand_dict =
     (case spell_cands res threshold sent tok cand_dict of Inl e \<Rightarrow> Inl e | Inr d1 \<Rightarrow>
      case morph_cands res threshold sent tok d1 of Inl e \<Rightarrow> Inl e | Inr d2 \<Rightarrow>
      case det_cands res threshold sent tok d2 of Inl e \<Rightarrow> Inl e | Inr d3 \<Rightarrow>
      prep_cands res threshold sent tok d3)"

text \<open>The loop \<open>for tok in proc_sent\<close>.\<close>

fun collect_cands :: "resources \<Rightarrow> real \<Rightarrow> sentence \<Rightarrow> token list \<Rightarrow> edit_dict \<Rightarrow> error + edit_dict" where
  "collect_cands res threshold sent [] cand_dict = Inr cand_dict"
| "collect_cands res threshold sent (tok # toks) cand_dict =
     (case tok_cands res threshold sent tok cand_dict of
        Inl e \<Rightarrow> Inl e
      | Inr d \<Rightarrow> collect_cands res threshold sent toks d)"

text \<open>The candidate dictionary of one sweep, as it stands when the token loop ends.\<close>

definition cand_dict_of :: "sentence \<Rightarrow> resources \<Rightarrow> real \<Rightarrow> error + edit_dict" where
  "cand_dict_of sent res threshold =
     collect_cands res threshold sent (doc_toks (processWithSpacy sent res)) []"

text \<open>
  The two length-normalised scores.  Both divide by a length, which raises
  ZeroDivisionError on an empty token list; the functions below are the quotients, and
  \<open>processSent\<close> and \<open>select_best\<close> test the divisor first.
\<close>

definition orig_prob :: "resources \<Rightarrow> sentence \<Rightarrow> real" where
  "orig_prob res sent =
     lm res (doc_text (processWithSpacy sent res)) / real (length (doc_toks (processWithSpacy sent res)))"

definition cand_prob :: "resources \<Rightarrow> sentence \<Rightarrow> real" where
  "cand_prob res cand_sent = lm res (join cand_sent) / real (length cand_sent)"

text \<open>The first conjunct of the test in the selection loop; \<open>edit[-1]\<close> is the weight.\<close>

definition eligible :: "resources \<Rightarrow> sentence \<Rightarrow> edit \<Rightarrow> sentence \<Rightarrow> bool" where
  "eligible res sent edit cand_sent =
     (cand_prob res cand_sent > snd (snd edit) * orig_prob res sent)"

text \<open>\<open>cand_prob > best_prob\<close>, where \<open>best_prob\<close> starts as minus infinity.\<close>

fun above_best :: "real \<Rightarrow> real option \<Rightarrow> bool" where
  "above_best p None = True"
| "above_best p (Some b) = (p > b)"

text \<open>The selection loop over \<open>cand_dict.items()\<close>, carrying \<open>(best_prob, best_sent)\<close>.\<close>

fun select_best ::
  "resources \<Rightarrow> sentence \<Rightarrow> edit_dict \<Rightarrow> real option \<times> sentence \<Rightarrow> error + (real option \<times> sentence)" where
  "select_best res sent [] best = Inr best"
| "select_best res sent ((edit, cand_sent) # items) best =
     (if length cand_sent = 0 then Inl ZeroDivisionError
      else if eligible res sent edit cand_sent \<and> above_best (cand_prob res cand_sent) (fst best)
      then select_best res sent items (Some (cand_prob res cand_sent), cand_sent)
      else select_best res sent items best)"

definition processSent :: "sentence \<Rightarrow> resources \<Rightarrow> real \<Rightarrow> error + (sentence \<times> bool)" where
  "processSent sent res threshold =
     (if length (doc_toks (processWithSpacy sent res)) = 0 then Inl ZeroDivisionError
      else case cand_dict_of sent res threshold of
        Inl e \<Rightarrow> Inl e
      | Inr cand_dict \<Rightarrow>
          (case select_best res sent cand_dict (None, []) of
             Inl e \<Rightarrow> Inl e
           | Inr best \<Rightarrow> Inr (if snd best \<noteq> [] then (snd best, True) else (sent, False))))"

section \<open>main\<close>

text \<open>Whitespace as \<open>str.strip\<close> and \<open>str.split\<close> see it, on ASCII.\<close>

definition isspace_c :: "char \<Rightarrow> bool" where
  "isspace_c c = ((9 \<le> (of_char c :: nat) \<and> (of_char c :: nat) \<le> 13) \<or>
                  (28 \<le> (of_char c :: nat) \<and> (of_char c :: nat) \<le> 32))"

definition strip :: "string \<Rightarrow> string" where
  "strip s = rev (dropWhile isspace_c (rev (dropWhile isspace_c s)))"

text \<open>
  \<open>s.split()\<close>: the maximal runs of non-space characters.  \<open>cur\<close> is the run being
  read, reversed.
\<close>

fun split_from :: "string \<Rightarrow> string \<Rightarrow> string list" where
  "split_from cur [] = (if cur = [] then [] else [rev cur])"
| "split_from cur (c # cs) =
     (if isspace_c c then (if cur = [] then split_from [] cs else rev cur # split_from [] cs)
      else split_from (c # cur) cs)"

definition split :: "string \<Rightarrow> string list" where
  "split s = split_from [] s"

definition upper_c :: "char \<Rightarrow> char" where
  "upper_c c = (if islower_c c then char_of ((of_char c :: nat) - 32) else c)"

definition lower_c :: "char \<Rightarrow> char" where
  "lower_c c = (if isupper_c c then char_of ((of_char c :: nat) + 32) else c)"

definition upper :: "string \<Rightarrow> string" where
  "upper s = map upper_c s"

definition lower :: "string \<Rightarrow> string" where
  "lower s = map lower_c s"

text \<open>\<open>s.isupper()\<close>: at least one cased character, and no lowercase one.\<close>

definition isupper :: "string \<Rightarrow> bool" where
  "isupper s = (list_ex isupper_c s \<and> \<not> list_ex islower_c s)"

text \<open>
  The loop \<open>while has_errors\<close>.  It has no bound in the source, so the model is a
  partial function: \<open>None\<close> means that the loop never ends.
\<close>

partial_function (option) correct :: "resources \<Rightarrow> real \<Rightarrow> sentence \<Rightarrow> (error + sentence) option" where
  "correct res threshold sent =
     (case processSent sent res threshold of
        Inl e \<Rightarrow> Some (Inl e)
      | Inr r \<Rightarrow> if snd r then correct res threshold (fst r) else Some (Inr (fst r)))"

declare correct.simps [code]

text \<open>
  The tail of the loop body: join the tokens, upper-case the first character
  (\<open>sent[0]\<close> raises IndexError on the empty string), restore an upper-case line, and
  append the newline.  The result is the string handed to \<open>out_sents.write\<close>.
\<close>

definition finish_line :: "bool \<Rightarrow> sentence \<Rightarrow> error + string" where
  "finish_line up sent =
     (case join sent of
        [] \<Rightarrow> Inl IndexError
      | c # cs \<Rightarrow>
          (let s = upper [c] @ cs
           in Inr ((if up then upper s else s) @ [CHR 0x0A])))"

text \<open>The body of \<open>for sent in sents\<close> for one line of the input file.\<close>

definition process_line :: "resources \<Rightarrow> real \<Rightarrow> string \<Rightarrow> (error + string) option" where
  "process_line res threshold line =
     (let up = isupper line;
          sent = split (strip (if up then lower line else line))
      in if sent = [] then Some (Inr [CHR 0x0A])
         else case correct res threshold sent of
                None \<Rightarrow> None
              | Some (Inl e) \<Rightarrow> Some (Inl e)
              | Some (Inr sent') \<Rightarrow> Some (finish_line up sent'))"

text \<open>
  \<open>main\<close> on the lines of the input file; \<open>out\<close> collects the strings written so far,
  one \<open>write\<close> per element.  The run ends at the first exception, and has no result
  when a correction loop never ends.
\<close>

fun main_loop :: "resources \<Rightarrow> real \<Rightarrow> string list \<Rightarrow> string list \<Rightarrow> (error + string list) option" where
  "main_loop res threshold [] out = Some (Inr out)"
| "main_loop res threshold (line # lines) out =
     (case process_line res threshold line of
        None \<Rightarrow> None
      | Some (Inl e) \<Rightarrow> Some (Inl e)
      | Some (Inr w) \<Rightarrow> main_loop res threshold lines (out @ [w]))"

definition main :: "resources \<Rightarrow> real \<Rightarrow> string list \<Rightarrow> (error + string list) option" where
  "main res threshold lines = main_loop res threshold lines []"

section \<open>loadWordFormDict\<close>

text \<open>\<open>s.split(sep)\<close> for a non-empty separator, scanning from the left.\<close>

function split_str :: "string \<Rightarrow> string \<Rightarrow> string list" where
  "split_str sep [] = [[]]"
| "split_str sep (c # cs) =
     (if sep \<noteq> [] \<and> take (length sep) (c # cs) = sep
      then [] # split_str sep (drop (length sep) (c # cs))
      else (case split_str sep cs of [] \<Rightarrow> [[c]] | w # ws \<Rightarrow> (c # w) # ws))"
  by pat_completeness auto
termination
  by (relation "measure (\<lambda>(sep, s). length s)") auto

text \<open>\<open>re.sub("[012~<,_!\?\.\|]+", "", forms)\<close>: every character of the class is removed.\<close>

definition strip_markup :: "string \<Rightarrow> string" where
  "strip_markup forms = filter (\<lambda>c. c \<notin> set ''012~<,_!?.|'') forms"

text \<open>
  \<open>re.sub("\{.*?\}", "", forms)\<close>: an opening brace is removed together with the text
  up to the nearest closing brace, when one comes before the end of the line.
  \<open>brace_close\<close> returns what follows that closing brace.
\<close>

fun brace_close :: "string \<Rightarrow> string option" where
  "brace_close [] = None"
| "brace_close (c # cs) =
     (if c = CHR ''}'' then Some cs else if c = CHR 0x0A then None else brace_close cs)"

lemma brace_close_length: "brace_close cs = Some r \<Longrightarrow> length r < Suc (length cs)"
  by (induction cs) (auto split: if_splits)

function strip_braces :: "string \<Rightarrow> string" where
  "strip_braces [] = []"
| "strip_braces (c # cs) =
     (if c = CHR ''{'' then
        (case brace_close cs of
           Some r \<Rightarrow> strip_braces r
         | None \<Rightarrow> c # strip_braces cs)
      else c # strip_braces cs)"
  by pat_completeness auto
termination
  by (relation "measure length") (auto dest: brace_close_length)

text \<open>
  The loop body of \<open>loadWordFormDict\<close> up to the set it stores: \<open>entry[1]\<close> and
  \<open>key[0]\<close> raise IndexError when the line has no \<open>": "\<close> or nothing before it.
\<close>

definition parse_entry :: "string \<Rightarrow> error + (string \<times> string set)" where
  "parse_entry entry =
     (case split_str '': '' entry of
        [] \<Rightarrow> Inl IndexError
      | e0 # es \<Rightarrow>
          (let key = split e0
           in case es of
                [] \<Rightarrow> Inl IndexError
              | forms # _ \<Rightarrow>
                  (case key of
                     [] \<Rightarrow> Inl IndexError
                   | word # _ \<Rightarrow>
                       Inr (word, set (word # split (strip_braces (strip_markup forms)))))))"

fun load_entries ::
  "string list \<Rightarrow> (string \<rightharpoonup> string set) \<Rightarrow> error + (string \<rightharpoonup> string set)" where
  "load_entries [] form_dict = Inr form_dict"
| "load_entries (entry # entries) form_dict =
     (case parse_entry entry of
        Inl e \<Rightarrow> Inl e
      | Inr (word, forms) \<Rightarrow> load_entries entries (form_dict(word \<mapsto> forms)))"

text \<open>\<open>loadWordFormDict\<close> on the text of the file at \<open>path\<close>.\<close>

definition loadWordFormDict :: "string \<Rightarrow> error + (string \<rightharpoonup> string set)" where
  "loadWordFormDict content = load_entries (split_str [CHR 0x0A] (strip content)) Map.empty"

section \<open>Predicates and example resources used in the statements\<close>

text \<open>
  A hypothesis of the sweep for \<open>sent\<close>: the sentence with one position replaced and
  the empty strings dropped, filed under the position, the candidate and the weight.
\<close>

abbreviation hyp_at :: "sentence \<Rightarrow> real \<Rightarrow> edit \<times> sentence \<Rightarrow> bool" where
  "hyp_at sent weight p \<equiv>
     (\<exists>k cand. k < length sent \<and> fst p = (int k, cand, weight) \<and>
        snd p = filter_None (sent[k := cand]) \<and> snd p \<noteq> [])"

text \<open>
  \<open>first_best items h\<close>: \<open>h\<close> is an eligible hypothesis of \<open>items\<close>, every eligible
  hypothesis before it scores strictly less and every eligible one after it scores at
  most as much.
\<close>

definition first_best :: "resources \<Rightarrow> sentence \<Rightarrow> edit_dict \<Rightarrow> sentence \<Rightarrow> bool" where
  "first_best res sent items h =
     (\<exists>pre e post. items = pre @ (e, h) # post \<and> eligible res sent e h \<and>
        (\<forall>p\<in>set pre. eligible res sent (fst p) (snd p) \<longrightarrow>
             cand_prob res (snd p) < cand_prob res h) \<and>
        (\<forall>p\<in>set post. eligible res sent (fst p) (snd p) \<longrightarrow>
             cand_prob res (snd p) \<le> cand_prob res h))"

text \<open>
  A small set of resources: a language model that prefers one sentence, a tagger whose
  lemma is the token itself, a spellchecker that knows every word, no inflections, and
  the determiners and prepositions of \<open>loadResources\<close>.
\<close>

definition res_demo :: resources where
  "res_demo =
     \<lparr>lm = (\<lambda>s. if s = ''she bought an apple'' then - 4
                else if s = ''she bought the apple'' then - 79 / 10 else - 8),
      nlp_text = join,
      nlp_lemma = (\<lambda>sent k. sent ! k),
      gb_spell = (\<lambda>w. True),
      gb_suggest = (\<lambda>w. []),
      gb_infl = (\<lambda>w. None),
      det = ['''', ''the'', ''a'', ''an''],
      prep = ['''', ''about'', ''at'', ''by'', ''for'', ''from'', ''in'', ''of'', ''on'', ''to'', ''with'']\<rparr>"

text \<open>A line with no non-whitespace content, and the token list \<open>main\<close> makes of a line.\<close>

definition blank :: "string \<Rightarrow> bool" where
  "blank line = list_all isspace_c line"

definition line_tokens :: "string \<Rightarrow> sentence" where
  "line_tokens line = split (strip (if isupper line then lower line else line))"

text \<open>
  An entry of the form \<open>lemma inflectionTag: form1 form2 ...\<close>: it has the separator
  \<open>": "\<close> and at least one word before it.  \<open>has_sep\<close> says that \<open>": "\<close> occurs.
\<close>

definition well_formed :: "string \<Rightarrow> bool" where
  "well_formed entry =
     (case split_str '': '' entry of
        e0 # forms # _ \<Rightarrow> split e0 \<noteq> []
      | _ \<Rightarrow> False)"

fun has_sep :: "string \<Rightarrow> bool" where
  "has_sep [] = False"
| "has_sep (c # cs) = (take 2 (c # cs) = '': '' \<or> has_sep cs)"

section \<open>Properties of generateCands\<close>

lemma dict_setitem_set:
  "set (dict_setitem k v d) \<subseteq> insert (k, v) (set d)"
  by (induction d) auto

lemma dict_update_set:
  "set (dict_update d e) \<subseteq> set d \<union> set e"
proof (induction e arbitrary: d)
  case Nil
  show ?case by simp
next
  case (Cons p ps)
  have "set (dict_update (dict_setitem (fst p) (snd p) d) ps)
          \<subseteq> set (dict_setitem (fst p) (snd p) d) \<union> set ps"
    by (rule Cons.IH)
  also have "\<dots> \<subseteq> insert (fst p, snd p) (set d) \<union> set ps"
    using dict_setitem_set [of "fst p" "snd p" d] by blast
  finally show ?case by auto
qed

lemma generateCands_step_entries:
  assumes "generateCands_step tok_id sent weight cand d = Inr d'"
      and "(e, h) \<in> set d'"
  shows "(e, h) \<in> set d \<or>
         (\<exists>k. py_index (length sent) tok_id = Some k \<and> e = (tok_id, cand, weight) \<and>
              h = filter_None (sent[k := cand]) \<and> h \<noteq> [])"
proof (cases "py_index (length sent) tok_id")
  case None
  with assms show ?thesis by (simp add: generateCands_step_def)
next
  case (Some k)
  show ?thesis
  proof (cases "filter_None (sent[k := cand]) = []")
    case True
    with Some assms show ?thesis by (simp add: generateCands_step_def)
  next
    case False
    with Some assms(1)
    have "d' = dict_setitem (tok_id, cand, weight) (filter_None (sent[k := cand])) d"
      by (simp add: generateCands_step_def)
    then have "set d' \<subseteq> insert ((tok_id, cand, weight), filter_None (sent[k := cand])) (set d)"
      using dict_setitem_set [of "(tok_id, cand, weight)" "filter_None (sent[k := cand])" d]
      by simp
    with assms(2) have "(e, h) = ((tok_id, cand, weight), filter_None (sent[k := cand])) \<or>
        (e, h) \<in> set d"
      by blast
    with Some False show ?thesis by auto
  qed
qed

lemma generateCands_loop_entries:
  assumes "generateCands_loop tok_id sent weight cands d = Inr d'"
      and "(e, h) \<in> set d'"
  shows "(e, h) \<in> set d \<or>
         (\<exists>k cand. cand \<in> set cands \<and> py_index (length sent) tok_id = Some k \<and>
              e = (tok_id, cand, weight) \<and> h = filter_None (sent[k := cand]) \<and> h \<noteq> [])"
  using assms
proof (induction cands arbitrary: d)
  case Nil
  then show ?case by simp
next
  case (Cons cand cands)
  from Cons.prems(1) obtain d1 where
    step: "generateCands_step tok_id sent weight cand d = Inr d1" and
    rest: "generateCands_loop tok_id sent weight cands d1 = Inr d'"
    by (auto split: sum.splits)
  from Cons.IH [OF rest Cons.prems(2)]
  show ?case
  proof
    assume "(e, h) \<in> set d1"
    from generateCands_step_entries [OF step this] show ?thesis by auto
  next
    assume "\<exists>k c. c \<in> set cands \<and> py_index (length sent) tok_id = Some k \<and>
              e = (tok_id, c, weight) \<and> h = filter_None (sent[k := c]) \<and> h \<noteq> []"
    then show ?thesis by auto
  qed
qed

lemma generateCands_entries:
  assumes "generateCands tok_id cands sent weight = Inr d"
      and "(e, h) \<in> set d"
  shows "\<exists>k cand. cand \<in> set cands \<and> py_index (length sent) tok_id = Some k \<and>
              e = (tok_id, cand, weight) \<and> h = filter_None (sent[k := cand]) \<and> h \<noteq> []"
  using generateCands_loop_entries [of tok_id sent weight cands "[]" d e h] assms
  by (simp add: generateCands_def)

lemma generateCands_loop_in_range:
  assumes "py_index (length sent) tok_id = Some k"
  shows "\<exists>d'. generateCands_loop tok_id sent weight cands d = Inr d'"
proof (induction cands arbitrary: d)
  case Nil
  show ?case by simp
next
  case (Cons cand cands)
  from assms have "\<exists>d1. generateCands_step tok_id sent weight cand d = Inr d1"
    by (simp add: generateCands_step_def Let_def)
  then obtain d1 where "generateCands_step tok_id sent weight cand d = Inr d1" ..
  with Cons.IH [of d1] show ?case by simp
qed

lemma generateCands_in_range:
  "k < length sent \<Longrightarrow> \<exists>d. generateCands (int k) cands sent weight = Inr d"
  using generateCands_loop_in_range [of sent "int k" k weight cands "[]"]
  by (simp add: generateCands_def py_index_def)

lemma filter_None_update:
  assumes "k < length sent" and "[] \<notin> set sent"
  shows "filter_None (sent[k := cand]) =
           take k sent @ (if cand = [] then [] else [cand]) @ drop (Suc k) sent"
proof -
  have upd: "sent[k := cand] = take k sent @ cand # drop (Suc k) sent"
    using assms(1) by (rule upd_conv_take_nth_drop)
  have a: "filter (\<lambda>t. t \<noteq> []) (take k sent) = take k sent"
    using assms(2) by (auto simp: filter_id_conv dest: in_set_takeD)
  have b: "filter (\<lambda>t. t \<noteq> []) (drop (Suc k) sent) = drop (Suc k) sent"
    using assms(2) by (auto simp: filter_id_conv dest: in_set_dropD)
  show ?thesis
    unfolding filter_None_def upd using a b by simp
qed

section \<open>Properties of one sweep\<close>

lemma py_index_nat: "k < n \<Longrightarrow> py_index n (int k) = Some k"
  by (simp add: py_index_def)

lemma generateCands_hyp_at:
  assumes "k < length sent" and "generateCands (int k) cands sent weight = Inr d"
      and "p \<in> set d"
  shows "hyp_at sent weight p"
proof -
  obtain e h where p: "p = (e, h)" by (cases p)
  from generateCands_entries [OF assms(2), of e h] assms(3) p
  obtain k' cand where "py_index (length sent) (int k) = Some k'"
    "e = (int k, cand, weight)" "h = filter_None (sent[k' := cand])" "h \<noteq> []"
    by auto
  with py_index_nat [OF assms(1)] p assms(1) show ?thesis by auto
qed

lemma update_from_hyp_at:
  assumes "k < length sent" and "\<forall>p\<in>set cd. hyp_at sent weight p"
  shows "\<exists>d'. update_from cd (generateCands (int k) cands sent weight) = Inr d' \<and>
           (\<forall>p\<in>set d'. hyp_at sent weight p)"
proof -
  from generateCands_in_range [OF assms(1)] obtain d where
    d: "generateCands (int k) cands sent weight = Inr d" by blast
  have "\<forall>p\<in>set (dict_update cd d). hyp_at sent weight p"
  proof
    fix p assume "p \<in> set (dict_update cd d)"
    with dict_update_set [of cd d] have "p \<in> set cd \<or> p \<in> set d" by blast
    then show "hyp_at sent weight p"
      using assms(2) generateCands_hyp_at [OF assms(1) d] by blast
  qed
  with d show ?thesis by (simp add: update_from_def)
qed

lemma spell_cands_hyp_at:
  assumes "tok_i tok < length sent" and "\<forall>p\<in>set cd. hyp_at sent weight p"
  shows "\<exists>d'. spell_cands res weight sent tok cd = Inr d' \<and> (\<forall>p\<in>set d'. hyp_at sent weight p)"
  using update_from_hyp_at [OF assms, of "gb_suggest res (tok_text tok)"] assms(2)
  by (simp add: spell_cands_def Let_def)

lemma morph_cands_hyp_at:
  assumes "tok_i tok < length sent" and "\<forall>p\<in>set cd. hyp_at sent weight p"
  shows "\<exists>d'. morph_cands res weight sent tok cd = Inr d' \<and> (\<forall>p\<in>set d'. hyp_at sent weight p)"
proof (cases "gb_infl res (tok_lemma tok)")
  case None
  with assms(2) show ?thesis by (simp add: morph_cands_def)
next
  case (Some cands)
  with update_from_hyp_at [OF assms, of cands] show ?thesis by (simp add: morph_cands_def)
qed

lemma det_cands_hyp_at:
  assumes "tok_i tok < length sent" and "\<forall>p\<in>set cd. hyp_at sent weight p"
  shows "\<exists>d'. det_cands res weight sent tok cd = Inr d' \<and> (\<forall>p\<in>set d'. hyp_at sent weight p)"
  using update_from_hyp_at [OF assms, of "det res"] assms(2)
  by (simp add: det_cands_def)

lemma prep_cands_hyp_at:
  assumes "tok_i tok < length sent" and "\<forall>p\<in>set cd. hyp_at sent weight p"
  shows "\<exists>d'. prep_cands res weight sent tok cd = Inr d' \<and> (\<forall>p\<in>set d'. hyp_at sent weight p)"
  using update_from_hyp_at [OF assms, of "prep res"] assms(2)
  by (simp add: prep_cands_def)

lemma tok_cands_hyp_at:
  assumes "tok_i tok < length sent" and "\<forall>p\<in>set cd. hyp_at sent weight p"
  shows "\<exists>d'. tok_cands res weight sent tok cd = Inr d' \<and> (\<forall>p\<in>set d'. hyp_at sent weight p)"
proof -
  from spell_cands_hyp_at [OF assms] obtain d1 where
    d1: "spell_cands res weight sent tok cd = Inr d1" "\<forall>p\<in>set d1. hyp_at sent weight p" by blast
  from morph_cands_hyp_at [OF assms(1) d1(2)] obtain d2 where
    d2: "morph_cands res weight sent tok d1 = Inr d2" "\<forall>p\<in>set d2. hyp_at sent weight p" by blast
  from det_cands_hyp_at [OF assms(1) d2(2)] obtain d3 where
    d3: "det_cands res weight sent tok d2 = Inr d3" "\<forall>p\<in>set d3. hyp_at sent weight p" by blast
  from prep_cands_hyp_at [OF assms(1) d3(2)] obtain d4 where
    d4: "prep_cands res weight sent tok d3 = Inr d4" "\<forall>p\<in>set d4. hyp_at sent weight p" by blast
  from d1(1) d2(1) d3(1) d4 show ?thesis by (simp add: tok_cands_def)
qed

lemma collect_cands_hyp_at:
  assumes "\<forall>tok\<in>set toks. tok_i tok < length sent" and "\<forall>p\<in>set cd. hyp_at sent weight p"
  shows "\<exists>d'. collect_cands res weight sent toks cd = Inr d' \<and> (\<forall>p\<in>set d'. hyp_at sent weight p)"
  using assms
proof (induction toks arbitrary: cd)
  case Nil
  then show ?case by simp
next
  case (Cons tok toks)
  from Cons.prems(1) have "tok_i tok < length sent" by simp
  from tok_cands_hyp_at [OF this Cons.prems(2)] obtain d1 where
    d1: "tok_cands res weight sent tok cd = Inr d1" "\<forall>p\<in>set d1. hyp_at sent weight p" by blast
  from Cons.prems(1) have "\<forall>tok\<in>set toks. tok_i tok < length sent" by simp
  from Cons.IH [OF this d1(2)] d1(1) show ?case by simp
qed

lemma cand_dict_of_hyp_at:
  "\<exists>d. cand_dict_of sent res weight = Inr d \<and> (\<forall>p\<in>set d. hyp_at sent weight p)"
proof -
  have "\<forall>tok\<in>set (doc_toks (processWithSpacy sent res)). tok_i tok < length sent"
    by (auto simp: processWithSpacy_def)
  from collect_cands_hyp_at [OF this, of "[]" weight res] show ?thesis
    by (simp add: cand_dict_of_def)
qed

lemma first_best_new:
  assumes "eligible res sent e h"
      and "\<forall>p\<in>set items. eligible res sent (fst p) (snd p) \<longrightarrow>
             cand_prob res (snd p) \<le> cand_prob res h"
  shows "first_best res sent ((e, h) # items) h"
  unfolding first_best_def
  apply (rule exI [of _ "[]"])
  apply (rule exI [of _ e])
  apply (rule exI [of _ items])
  using assms apply simp
  done

lemma first_best_keep:
  assumes "first_best res sent items h'"
      and "eligible res sent e h \<longrightarrow> cand_prob res h < cand_prob res h'"
  shows "first_best res sent ((e, h) # items) h'"
proof -
  from assms(1) obtain pre e' post where b:
    "items = pre @ (e', h') # post" "eligible res sent e' h'"
    "\<forall>p\<in>set pre. eligible res sent (fst p) (snd p) \<longrightarrow>
             cand_prob res (snd p) < cand_prob res h'"
    "\<forall>p\<in>set post. eligible res sent (fst p) (snd p) \<longrightarrow>
             cand_prob res (snd p) \<le> cand_prob res h'"
    unfolding first_best_def by blast
  show ?thesis
    unfolding first_best_def
    apply (rule exI [of _ "(e, h) # pre"])
    apply (rule exI [of _ e'])
    apply (rule exI [of _ post])
    using b assms(2) apply simp
    done
qed

lemma above_best_trans:
  "above_best q b \<Longrightarrow> q < q' \<Longrightarrow> above_best q' b"
  by (cases b) auto

lemma above_best_not:
  "\<not> above_best q b \<Longrightarrow> above_best q' b \<Longrightarrow> q < q'"
  by (cases b) auto

lemma select_best_char:
  assumes "\<forall>p\<in>set items. snd p \<noteq> []"
  shows "(select_best res sent items best = Inr best \<and>
            (\<forall>p\<in>set items. eligible res sent (fst p) (snd p) \<longrightarrow>
                 \<not> above_best (cand_prob res (snd p)) (fst best))) \<or>
         (\<exists>h. select_best res sent items best = Inr (Some (cand_prob res h), h) \<and>
            above_best (cand_prob res h) (fst best) \<and> first_best res sent items h)"
  using assms
proof (induction items arbitrary: best)
  case Nil
  show ?case by simp
next
  case (Cons p items)
  obtain e h where p: "p = (e, h)" by (cases p)
  from Cons.prems p have h: "h \<noteq> []" and rest: "\<forall>p\<in>set items. snd p \<noteq> []" by auto
  let ?q = "cand_prob res h"
  show ?case
  proof (cases "eligible res sent e h \<and> above_best ?q (fst best)")
    case True
    then have step: "select_best res sent (p # items) best =
        select_best res sent items (Some ?q, h)"
      using p h by simp
    from Cons.IH [OF rest, of "(Some ?q, h)"]
    show ?thesis
    proof
      assume a: "select_best res sent items (Some ?q, h) = Inr (Some ?q, h) \<and>
            (\<forall>p\<in>set items. eligible res sent (fst p) (snd p) \<longrightarrow>
                 \<not> above_best (cand_prob res (snd p)) (fst (Some ?q, h)))"
      then have "\<forall>p\<in>set items. eligible res sent (fst p) (snd p) \<longrightarrow>
                 cand_prob res (snd p) \<le> ?q"
        by (simp add: not_less)
      with True have "first_best res sent ((e, h) # items) h"
        by (simp add: first_best_new)
      with a step True p show ?thesis by simp
    next
      assume "\<exists>h'. select_best res sent items (Some ?q, h) = Inr (Some (cand_prob res h'), h') \<and>
            above_best (cand_prob res h') (fst (Some ?q, h)) \<and> first_best res sent items h'"
      then obtain h' where b:
        "select_best res sent items (Some ?q, h) = Inr (Some (cand_prob res h'), h')"
        "?q < cand_prob res h'" "first_best res sent items h'"
        by auto
      have c2: "above_best (cand_prob res h') (fst best)"
        using True b(2) above_best_trans by blast
      have c3: "first_best res sent ((e, h) # items) h'"
        using b(3) b(2) by (simp add: first_best_keep)
      from c2 c3 b(1) step p show ?thesis by simp
    qed
  next
    case False
    then have step: "select_best res sent (p # items) best = select_best res sent items best"
      using p h by auto
    from Cons.IH [OF rest, of best]
    show ?thesis
    proof
      assume a: "select_best res sent items best = Inr best \<and>
            (\<forall>p\<in>set items. eligible res sent (fst p) (snd p) \<longrightarrow>
                 \<not> above_best (cand_prob res (snd p)) (fst best))"
      then show ?thesis using step False p by simp
    next
      assume "\<exists>h'. select_best res sent items best = Inr (Some (cand_prob res h'), h') \<and>
            above_best (cand_prob res h') (fst best) \<and> first_best res sent items h'"
      then obtain h' where b:
        "select_best res sent items best = Inr (Some (cand_prob res h'), h')"
        "above_best (cand_prob res h') (fst best)" "first_best res sent items h'"
        by auto
      have "eligible res sent e h \<longrightarrow> ?q < cand_prob res h'"
        using False b(2) above_best_not by blast
      then have c3: "first_best res sent ((e, h) # items) h'"
        using b(3) by (simp add: first_best_keep)
      from c3 b(1) b(2) step p show ?thesis by simp
    qed
  qed
qed

lemma processSent_char:
  assumes "sent \<noteq> []"
  shows "\<exists>cand_dict. cand_dict_of sent res threshold = Inr cand_dict \<and>
     (\<forall>p\<in>set cand_dict. hyp_at sent threshold p) \<and>
     ((processSent sent res threshold = Inr (sent, False) \<and>
        (\<forall>p\<in>set cand_dict. \<not> eligible res sent (fst p) (snd p))) \<or>
      (\<exists>h. processSent sent res threshold = Inr (h, True) \<and>
           first_best res sent cand_dict h))"
proof -
  from cand_dict_of_hyp_at [of sent res threshold] obtain d where
    d: "cand_dict_of sent res threshold = Inr d" "\<forall>p\<in>set d. hyp_at sent threshold p" by blast
  then have ne: "\<forall>p\<in>set d. snd p \<noteq> []" by blast
  have len: "length (doc_toks (processWithSpacy sent res)) \<noteq> 0"
    using assms by (simp add: processWithSpacy_def)
  from select_best_char [OF ne, of res sent "(None, [])"]
  have "(processSent sent res threshold = Inr (sent, False) \<and>
        (\<forall>p\<in>set d. \<not> eligible res sent (fst p) (snd p))) \<or>
      (\<exists>h. processSent sent res threshold = Inr (h, True) \<and> first_best res sent d h)"
  proof
    assume a: "select_best res sent d (None, []) = Inr (None, []) \<and>
            (\<forall>p\<in>set d. eligible res sent (fst p) (snd p) \<longrightarrow>
                 \<not> above_best (cand_prob res (snd p)) (fst (None, [])))"
    then have "processSent sent res threshold = Inr (sent, False)"
      using d(1) len by (simp add: processSent_def)
    moreover from a have "\<forall>p\<in>set d. \<not> eligible res sent (fst p) (snd p)" by simp
    ultimately show ?thesis by blast
  next
    assume "\<exists>h. select_best res sent d (None, []) = Inr (Some (cand_prob res h), h) \<and>
            above_best (cand_prob res h) (fst (None, [])) \<and> first_best res sent d h"
    then obtain h where b:
      "select_best res sent d (None, []) = Inr (Some (cand_prob res h), h)"
      "first_best res sent d h"
      by blast
    from b(2) obtain pre e post where "d = pre @ (e, h) # post"
      unfolding first_best_def by blast
    then have "(e, h) \<in> set d" by simp
    with ne have "h \<noteq> []" by force
    then have "processSent sent res threshold = Inr (h, True)"
      using d(1) len b(1) by (simp add: processSent_def)
    with b(2) show ?thesis by blast
  qed
  with d show ?thesis by blast
qed

section \<open>The hypotheses of generateCands\<close>

text \<open>
  Claim C4: \<open>generateCands\<close> never records an empty token list, so no candidate
  dictionary of a sweep holds one and no sweep selects one; in particular the edit that
  deletes the only token of a sentence is not among the hypotheses.
\<close>

theorem generateCands_never_empty:
  "(generateCands tok_id cands sent weight = Inr d \<longrightarrow> (\<forall>p\<in>set d. snd p \<noteq> [])) \<and>
   (cand_dict_of sent res weight = Inr d' \<longrightarrow> (\<forall>p\<in>set d'. snd p \<noteq> [])) \<and>
   (processSent sent res weight = Inr (h, True) \<longrightarrow> h \<noteq> [])"
proof (intro conjI impI ballI)
  fix p assume "generateCands tok_id cands sent weight = Inr d" and "p \<in> set d"
  with generateCands_entries [of tok_id cands sent weight d "fst p" "snd p"]
  show "snd p \<noteq> []" by auto
next
  fix p assume "cand_dict_of sent res weight = Inr d'" and "p \<in> set d'"
  with cand_dict_of_hyp_at [of sent res weight] show "snd p \<noteq> []" by auto
next
  assume "processSent sent res weight = Inr (h, True)"
  then show "h \<noteq> []"
    by (auto simp: processSent_def split: if_splits sum.splits)
qed

theorem generateCands_never_empty_witness:
  "generateCands 0 ['''', ''the''] [''a''] 1 = Inr [((0, ''the'', 1), [''the''])] \<and>
   snd ((0::int, ''the'', 1::real), [''the'']) \<noteq> [] \<and>
   generateCands 0 [''''] [''a''] 1 = Inr []"
proof -
  have g: "generateCands 0 ['''', ''the''] [''a''] 1 = Inr [((0, ''the'', 1), [''the''])]"
    by (simp add: generateCands_def generateCands_step_def py_index_def filter_None_def)
  have e: "generateCands 0 [''''] [''a''] 1 = Inr []"
    by (simp add: generateCands_def generateCands_step_def py_index_def filter_None_def)
  from generateCands_never_empty [of 0 "['''', ''the'']" "[''a'']" 1
      "[((0, ''the'', 1), [''the''])]"] g e
  show ?thesis by simp
qed

text \<open>
  Claim C10: for a sentence of non-empty tokens and a position of it, every hypothesis
  of \<open>generateCands\<close> is the sentence with that position replaced by the candidate, or
  removed when the candidate is the empty string; the other tokens keep their order,
  and the length is that of the sentence, or one less for a deletion.
\<close>

theorem generateCands_one_position:
  assumes "k < length sent" and "[] \<notin> set sent"
  shows "\<exists>d. generateCands (int k) cands sent weight = Inr d \<and>
     (\<forall>p\<in>set d. \<exists>cand\<in>set cands. fst p = (int k, cand, weight) \<and>
         snd p = take k sent @ (if cand = [] then [] else [cand]) @ drop (Suc k) sent \<and>
         length (snd p) = (if cand = [] then length sent - 1 else length sent))"
proof -
  from generateCands_in_range [OF assms(1)] obtain d where
    d: "generateCands (int k) cands sent weight = Inr d" by blast
  have "\<forall>p\<in>set d. \<exists>cand\<in>set cands. fst p = (int k, cand, weight) \<and>
         snd p = take k sent @ (if cand = [] then [] else [cand]) @ drop (Suc k) sent \<and>
         length (snd p) = (if cand = [] then length sent - 1 else length sent)"
  proof
    fix p assume "p \<in> set d"
    with generateCands_entries [OF d, of "fst p" "snd p"]
    obtain k' cand where c: "cand \<in> set cands" "py_index (length sent) (int k) = Some k'"
      "fst p = (int k, cand, weight)" "snd p = filter_None (sent[k' := cand])"
      by auto
    from c(2) py_index_nat [OF assms(1)] have "k' = k" by simp
    with c(4) filter_None_update [OF assms, of cand]
    have eq: "snd p = take k sent @ (if cand = [] then [] else [cand]) @ drop (Suc k) sent"
      by simp
    have "length (snd p) = (if cand = [] then length sent - 1 else length sent)"
      unfolding eq using assms(1) by auto
    with c(1) c(3) eq
    show "\<exists>cand\<in>set cands. fst p = (int k, cand, weight) \<and>
         snd p = take k sent @ (if cand = [] then [] else [cand]) @ drop (Suc k) sent \<and>
         length (snd p) = (if cand = [] then length sent - 1 else length sent)"
      by blast
  qed
  with d show ?thesis by blast
qed

theorem generateCands_one_position_witness:
  "(1::nat) < length [''she'', ''a'', ''apple''] \<and> [] \<notin> set [''she'', ''a'', ''apple''] \<and>
   generateCands 1 ['''', ''an''] [''she'', ''a'', ''apple''] 1 =
     Inr [((1, '''', 1), [''she'', ''apple'']), ((1, ''an'', 1), [''she'', ''an'', ''apple''])]"
proof -
  have a: "(1::nat) < length [''she'', ''a'', ''apple'']" by simp
  have b: "[] \<notin> set [''she'', ''a'', ''apple'']" by simp
  from generateCands_one_position [OF a b, of "['''', ''an'']" 1]
  obtain d where "generateCands (int 1) ['''', ''an''] [''she'', ''a'', ''apple''] 1 = Inr d" by blast
  moreover have "generateCands 1 ['''', ''an''] [''she'', ''a'', ''apple''] 1 =
     Inr [((1, '''', 1), [''she'', ''apple'']), ((1, ''an'', 1), [''she'', ''an'', ''apple''])]"
    by (simp add: generateCands_def generateCands_step_def py_index_def filter_None_def)
  ultimately show ?thesis using a b by simp
qed

section \<open>The acceptance rule and the selection of one sweep\<close>

lemma demo_cand_dict:
  "cand_dict_of [''she'', ''bought'', ''a'', ''apple''] res_demo w =
     Inr [((2, '''', w), [''she'', ''bought'', ''apple'']),
          ((2, ''the'', w), [''she'', ''bought'', ''the'', ''apple'']),
          ((2, ''a'', w), [''she'', ''bought'', ''a'', ''apple'']),
          ((2, ''an'', w), [''she'', ''bought'', ''an'', ''apple''])]"
  by (simp add: cand_dict_of_def processWithSpacy_def res_demo_def tok_cands_def
      spell_cands_def morph_cands_def det_cands_def prep_cands_def update_from_def
      generateCands_def generateCands_step_def py_index_def filter_None_def upt_rec)

lemma demo_orig_prob: "orig_prob res_demo [''she'', ''bought'', ''a'', ''apple''] = - 2"
  by (simp add: orig_prob_def processWithSpacy_def res_demo_def)

lemma demo_cand_prob_an: "cand_prob res_demo [''she'', ''bought'', ''an'', ''apple''] = - 1"
  by (simp add: cand_prob_def res_demo_def)

lemma demo_cand_prob_the: "cand_prob res_demo [''she'', ''bought'', ''the'', ''apple''] = - 79 / 40"
  by (simp add: cand_prob_def res_demo_def)

lemma demo_sweep:
  "processSent [''she'', ''bought'', ''a'', ''apple''] res_demo (24 / 25) =
     Inr ([''she'', ''bought'', ''an'', ''apple''], True)"
  by (simp add: processSent_def demo_cand_dict eligible_def demo_orig_prob
      demo_cand_prob_an demo_cand_prob_the)
    (simp add: cand_prob_def res_demo_def processWithSpacy_def)

text \<open>
  Claim C1, as amended: the test is \<open>score > weight * baseline\<close>, so for weights
  \<open>w1 \<le> w2\<close> a hypothesis eligible at \<open>w2\<close> is eligible at \<open>w1\<close> when the baseline is
  not negative, and a hypothesis eligible at \<open>w1\<close> is eligible at \<open>w2\<close> when the baseline
  is not positive, as it is for the log-probabilities of a language model.
\<close>

theorem eligible_weight_monotone:
  assumes "w1 \<le> w2"
  shows "(0 \<le> orig_prob res sent \<longrightarrow>
            eligible res sent (k, c, w2) h \<longrightarrow> eligible res sent (k, c, w1) h) \<and>
         (orig_prob res sent \<le> 0 \<longrightarrow>
            eligible res sent (k, c, w1) h \<longrightarrow> eligible res sent (k, c, w2) h)"
proof (intro conjI impI)
  assume "0 \<le> orig_prob res sent" and "eligible res sent (k, c, w2) h"
  moreover from assms \<open>0 \<le> orig_prob res sent\<close>
  have "w1 * orig_prob res sent \<le> w2 * orig_prob res sent"
    by (rule mult_right_mono)
  ultimately show "eligible res sent (k, c, w1) h"
    by (simp add: eligible_def)
next
  assume "orig_prob res sent \<le> 0" and "eligible res sent (k, c, w1) h"
  moreover from assms \<open>orig_prob res sent \<le> 0\<close>
  have "w2 * orig_prob res sent \<le> w1 * orig_prob res sent"
    by (rule mult_right_mono_neg)
  ultimately show "eligible res sent (k, c, w2) h"
    by (simp add: eligible_def)
qed

theorem eligible_weight_monotone_witness:
  "(24 / 25 :: real) \<le> 1 \<and>
   orig_prob res_demo [''she'', ''bought'', ''a'', ''apple''] \<le> 0 \<and>
   eligible res_demo [''she'', ''bought'', ''a'', ''apple''] (2, ''an'', 24 / 25)
     [''she'', ''bought'', ''an'', ''apple''] \<and>
   eligible res_demo [''she'', ''bought'', ''a'', ''apple''] (2, ''an'', 1)
     [''she'', ''bought'', ''an'', ''apple''] \<and>
   0 \<le> orig_prob (res_demo\<lparr>lm := \<lambda>s. if s = ''an'' then 1 else 0\<rparr>) [''a''] \<and>
   eligible (res_demo\<lparr>lm := \<lambda>s. if s = ''an'' then 1 else 0\<rparr>) [''a''] (0, ''an'', 1) [''an''] \<and>
   eligible (res_demo\<lparr>lm := \<lambda>s. if s = ''an'' then 1 else 0\<rparr>) [''a''] (0, ''an'', 24 / 25) [''an'']"
proof -
  have w: "(24 / 25 :: real) \<le> 1" by simp
  have neg: "orig_prob res_demo [''she'', ''bought'', ''a'', ''apple''] \<le> 0"
    by (simp add: demo_orig_prob)
  have e1: "eligible res_demo [''she'', ''bought'', ''a'', ''apple''] (2, ''an'', 24 / 25)
     [''she'', ''bought'', ''an'', ''apple'']"
    by (simp add: eligible_def demo_orig_prob demo_cand_prob_an)
  have pos: "0 \<le> orig_prob (res_demo\<lparr>lm := \<lambda>s. if s = ''an'' then 1 else 0\<rparr>) [''a'']"
    by (simp add: orig_prob_def processWithSpacy_def res_demo_def)
  have e2: "eligible (res_demo\<lparr>lm := \<lambda>s. if s = ''an'' then 1 else 0\<rparr>) [''a'']
     (0, ''an'', 1) [''an'']"
    by (simp add: eligible_def orig_prob_def cand_prob_def processWithSpacy_def res_demo_def)
  from eligible_weight_monotone [OF w, of res_demo "[''she'', ''bought'', ''a'', ''apple'']"
      2 "''an''" "[''she'', ''bought'', ''an'', ''apple'']"] neg e1
  have r1: "eligible res_demo [''she'', ''bought'', ''a'', ''apple''] (2, ''an'', 1)
     [''she'', ''bought'', ''an'', ''apple'']"
    by blast
  from eligible_weight_monotone [OF w,
      of "res_demo\<lparr>lm := \<lambda>s. if s = ''an'' then 1 else 0\<rparr>" "[''a'']" 0 "''an''" "[''an'']"]
    pos e2
  have r2: "eligible (res_demo\<lparr>lm := \<lambda>s. if s = ''an'' then 1 else 0\<rparr>) [''a'']
     (0, ''an'', 24 / 25) [''an'']"
    by blast
  from w neg e1 r1 pos e2 r2 show ?thesis by blast
qed

text \<open>
  The claim as stated fails: with a baseline of \<open>- 2\<close> the hypothesis that puts
  \<open>the\<close> at position 2 scores \<open>- 79 / 40\<close>; it is eligible at weight \<open>1\<close> and not at
  the smaller weight \<open>24 / 25\<close>.  Both sweeps have the same four hypotheses.
\<close>

theorem eligible_weight_counterexample:
  "(24 / 25 :: real) \<le> 1 \<and>
   map_sum id (map snd) (cand_dict_of [''she'', ''bought'', ''a'', ''apple''] res_demo 1) =
     map_sum id (map snd) (cand_dict_of [''she'', ''bought'', ''a'', ''apple''] res_demo (24 / 25)) \<and>
   eligible res_demo [''she'', ''bought'', ''a'', ''apple''] (2, ''the'', 1)
     [''she'', ''bought'', ''the'', ''apple''] \<and>
   \<not> eligible res_demo [''she'', ''bought'', ''a'', ''apple''] (2, ''the'', 24 / 25)
     [''she'', ''bought'', ''the'', ''apple'']"
  by (simp add: demo_cand_dict eligible_def demo_orig_prob demo_cand_prob_the)

text \<open>
  Claim C2: in one sweep of a non-empty sentence the hypotheses that pass
  \<open>score > weight * baseline\<close> are the eligible ones; when none passes the sentence
  comes back with \<open>False\<close>, and otherwise the sweep returns, with \<open>True\<close>, an eligible
  hypothesis such that every eligible hypothesis before it in iteration order scores
  strictly less and every eligible hypothesis after it scores at most as much.
\<close>

theorem processSent_selects_first_best:
  assumes "sent \<noteq> []"
  shows "\<exists>cand_dict. cand_dict_of sent res threshold = Inr cand_dict \<and>
     ((processSent sent res threshold = Inr (sent, False) \<and>
        (\<forall>p\<in>set cand_dict. \<not> eligible res sent (fst p) (snd p))) \<or>
      (\<exists>pre e h post. cand_dict = pre @ (e, h) # post \<and>
         processSent sent res threshold = Inr (h, True) \<and>
         eligible res sent e h \<and>
         (\<forall>p\<in>set pre. eligible res sent (fst p) (snd p) \<longrightarrow>
              cand_prob res (snd p) < cand_prob res h) \<and>
         (\<forall>p\<in>set post. eligible res sent (fst p) (snd p) \<longrightarrow>
              cand_prob res (snd p) \<le> cand_prob res h)))"
proof -
  from processSent_char [OF assms, of res threshold] obtain d where
    d: "cand_dict_of sent res threshold = Inr d" and
    alt: "(processSent sent res threshold = Inr (sent, False) \<and>
        (\<forall>p\<in>set d. \<not> eligible res sent (fst p) (snd p))) \<or>
      (\<exists>h. processSent sent res threshold = Inr (h, True) \<and> first_best res sent d h)"
    by blast
  from alt have "(processSent sent res threshold = Inr (sent, False) \<and>
        (\<forall>p\<in>set d. \<not> eligible res sent (fst p) (snd p))) \<or>
      (\<exists>pre e h post. d = pre @ (e, h) # post \<and>
         processSent sent res threshold = Inr (h, True) \<and>
         eligible res sent e h \<and>
         (\<forall>p\<in>set pre. eligible res sent (fst p) (snd p) \<longrightarrow>
              cand_prob res (snd p) < cand_prob res h) \<and>
         (\<forall>p\<in>set post. eligible res sent (fst p) (snd p) \<longrightarrow>
              cand_prob res (snd p) \<le> cand_prob res h))"
  proof
    assume "processSent sent res threshold = Inr (sent, False) \<and>
        (\<forall>p\<in>set d. \<not> eligible res sent (fst p) (snd p))"
    then show ?thesis by (rule disjI1)
  next
    assume "\<exists>h. processSent sent res threshold = Inr (h, True) \<and> first_best res sent d h"
    then obtain h where h: "processSent sent res threshold = Inr (h, True)"
      "first_best res sent d h" by blast
    from h(2) obtain pre e post where
      "d = pre @ (e, h) # post" "eligible res sent e h"
      "\<forall>p\<in>set pre. eligible res sent (fst p) (snd p) \<longrightarrow>
             cand_prob res (snd p) < cand_prob res h"
      "\<forall>p\<in>set post. eligible res sent (fst p) (snd p) \<longrightarrow>
             cand_prob res (snd p) \<le> cand_prob res h"
      unfolding first_best_def by blast
    with h(1) show ?thesis by blast
  qed
  with d show ?thesis by blast
qed

theorem processSent_selects_first_best_witness:
  "[''she'', ''bought'', ''a'', ''apple''] \<noteq> [] \<and>
   processSent [''she'', ''bought'', ''a'', ''apple''] res_demo (24 / 25) =
     Inr ([''she'', ''bought'', ''an'', ''apple''], True) \<and>
   (\<exists>cand_dict. cand_dict_of [''she'', ''bought'', ''a'', ''apple''] res_demo (24 / 25) =
      Inr cand_dict)"
proof -
  have ne: "[''she'', ''bought'', ''a'', ''apple''] \<noteq> []" by simp
  from processSent_selects_first_best [OF ne, of res_demo "24 / 25"]
  have "\<exists>cand_dict. cand_dict_of [''she'', ''bought'', ''a'', ''apple''] res_demo (24 / 25) =
      Inr cand_dict"
    by blast
  with ne demo_sweep show ?thesis by blast
qed

text \<open>
  Claim C5: when no hypothesis of a sweep passes the acceptance rule, \<open>processSent\<close>
  returns the input token list itself with \<open>False\<close>; when some hypothesis passes, it
  returns an eligible hypothesis of the sweep with \<open>True\<close>.
\<close>

theorem processSent_unchanged_or_selected:
  assumes "sent \<noteq> []"
  shows "\<exists>cand_dict. cand_dict_of sent res threshold = Inr cand_dict \<and>
     (if \<exists>p\<in>set cand_dict. eligible res sent (fst p) (snd p)
      then \<exists>p\<in>set cand_dict. eligible res sent (fst p) (snd p) \<and>
             processSent sent res threshold = Inr (snd p, True)
      else processSent sent res threshold = Inr (sent, False))"
proof -
  from processSent_char [OF assms, of res threshold] obtain d where
    d: "cand_dict_of sent res threshold = Inr d" and
    alt: "(processSent sent res threshold = Inr (sent, False) \<and>
        (\<forall>p\<in>set d. \<not> eligible res sent (fst p) (snd p))) \<or>
      (\<exists>h. processSent sent res threshold = Inr (h, True) \<and> first_best res sent d h)"
    by blast
  from alt have "if \<exists>p\<in>set d. eligible res sent (fst p) (snd p)
      then \<exists>p\<in>set d. eligible res sent (fst p) (snd p) \<and>
             processSent sent res threshold = Inr (snd p, True)
      else processSent sent res threshold = Inr (sent, False)"
  proof
    assume "processSent sent res threshold = Inr (sent, False) \<and>
        (\<forall>p\<in>set d. \<not> eligible res sent (fst p) (snd p))"
    then show ?thesis by simp
  next
    assume "\<exists>h. processSent sent res threshold = Inr (h, True) \<and> first_best res sent d h"
    then obtain h where h: "processSent sent res threshold = Inr (h, True)"
      "first_best res sent d h" by blast
    from h(2) obtain pre e post where
      "d = pre @ (e, h) # post" "eligible res sent e h"
      unfolding first_best_def by blast
    then have "(e, h) \<in> set d" "eligible res sent (fst (e, h)) (snd (e, h))" by simp_all
    with h(1) have "\<exists>p\<in>set d. eligible res sent (fst p) (snd p) \<and>
             processSent sent res threshold = Inr (snd p, True)"
      by (intro bexI [of _ "(e, h)"]) simp_all
    then show ?thesis by auto
  qed
  with d show ?thesis by blast
qed

theorem processSent_unchanged_or_selected_witness:
  "[''she'', ''bought'', ''an'', ''apple''] \<noteq> [] \<and>
   processSent [''she'', ''bought'', ''an'', ''apple''] res_demo (24 / 25) =
     Inr ([''she'', ''bought'', ''an'', ''apple''], False) \<and>
   [''she'', ''bought'', ''a'', ''apple''] \<noteq> [] \<and>
   processSent [''she'', ''bought'', ''a'', ''apple''] res_demo (24 / 25) =
     Inr ([''she'', ''bought'', ''an'', ''apple''], True) \<and>
   (\<exists>cand_dict. cand_dict_of [''she'', ''bought'', ''an'', ''apple''] res_demo (24 / 25) =
      Inr cand_dict)"
proof -
  have ne: "[''she'', ''bought'', ''an'', ''apple''] \<noteq> []" by simp
  from processSent_unchanged_or_selected [OF ne, of res_demo "24 / 25"]
  have ex: "\<exists>cand_dict. cand_dict_of [''she'', ''bought'', ''an'', ''apple''] res_demo (24 / 25) =
      Inr cand_dict"
    by blast
  have conv: "processSent [''she'', ''bought'', ''an'', ''apple''] res_demo (24 / 25) =
     Inr ([''she'', ''bought'', ''an'', ''apple''], False)"
    by code_simp
  from ne ex conv demo_sweep show ?thesis by simp
qed

section \<open>Properties of the correction loop and of main\<close>

lemma filter_None_no_empty: "[] \<notin> set (filter_None xs)"
  by (simp add: filter_None_def)

lemma first_best_mem:
  assumes "first_best res sent d h"
  shows "\<exists>e. (e, h) \<in> set d"
proof -
  from assms obtain pre e post where "d = pre @ (e, h) # post"
    unfolding first_best_def by blast
  then have "(e, h) \<in> set d" by simp
  then show ?thesis ..
qed

lemma processSent_result:
  assumes "sent \<noteq> []"
  shows "\<exists>s b. processSent sent res threshold = Inr (s, b) \<and> s \<noteq> [] \<and>
           ([] \<notin> set sent \<longrightarrow> [] \<notin> set s)"
proof -
  from processSent_char [OF assms, of res threshold] obtain d where
    inv: "\<forall>p\<in>set d. hyp_at sent threshold p" and
    alt: "(processSent sent res threshold = Inr (sent, False) \<and>
        (\<forall>p\<in>set d. \<not> eligible res sent (fst p) (snd p))) \<or>
      (\<exists>h. processSent sent res threshold = Inr (h, True) \<and> first_best res sent d h)"
    by blast
  from alt show ?thesis
  proof
    assume "processSent sent res threshold = Inr (sent, False) \<and>
        (\<forall>p\<in>set d. \<not> eligible res sent (fst p) (snd p))"
    with assms show ?thesis
      by (intro exI [of _ sent] exI [of _ False]) simp
  next
    assume "\<exists>h. processSent sent res threshold = Inr (h, True) \<and> first_best res sent d h"
    then obtain h where h: "processSent sent res threshold = Inr (h, True)"
      "first_best res sent d h" by blast
    from first_best_mem [OF h(2)] obtain e where "(e, h) \<in> set d" ..
    with inv have "hyp_at sent threshold (e, h)" by blast
    then obtain k cand where "h = filter_None (sent[k := cand])" "h \<noteq> []" by auto
    with h(1) filter_None_no_empty [of "sent[k := cand]"] show ?thesis
      by (intro exI [of _ h] exI [of _ True]) simp
  qed
qed

lemma correct_result:
  assumes "correct res threshold sent = Some r"
  shows "sent \<noteq> [] \<longrightarrow>
           (\<exists>s. r = Inr s \<and> s \<noteq> [] \<and> ([] \<notin> set sent \<longrightarrow> [] \<notin> set s))"
proof (rule correct.raw_induct [where P = "\<lambda>res threshold sent r. sent \<noteq> [] \<longrightarrow>
           (\<exists>s. r = Inr s \<and> s \<noteq> [] \<and> ([] \<notin> set sent \<longrightarrow> [] \<notin> set s))", OF _ assms])
  fix loop :: "resources \<Rightarrow> real \<Rightarrow> sentence \<Rightarrow> (error + sentence) option"
  fix res threshold sent r
  assume IH: "\<And>res threshold sent r. loop res threshold sent = Some r \<Longrightarrow>
      sent \<noteq> [] \<longrightarrow> (\<exists>s. r = Inr s \<and> s \<noteq> [] \<and> ([] \<notin> set sent \<longrightarrow> [] \<notin> set s))"
  assume body: "(case processSent sent res threshold of
        Inl e \<Rightarrow> Some (Inl e)
      | Inr r \<Rightarrow> if snd r then loop res threshold (fst r) else Some (Inr (fst r))) = Some r"
  show "sent \<noteq> [] \<longrightarrow> (\<exists>s. r = Inr s \<and> s \<noteq> [] \<and> ([] \<notin> set sent \<longrightarrow> [] \<notin> set s))"
  proof
    assume ne: "sent \<noteq> []"
    from processSent_result [OF ne, of res threshold] obtain s b where
      s: "processSent sent res threshold = Inr (s, b)" "s \<noteq> []"
         "[] \<notin> set sent \<longrightarrow> [] \<notin> set s"
      by blast
    show "\<exists>s. r = Inr s \<and> s \<noteq> [] \<and> ([] \<notin> set sent \<longrightarrow> [] \<notin> set s)"
    proof (cases b)
      case True
      with s(1) body have "loop res threshold s = Some r" by simp
      from IH [OF this] s(2)
      have "\<exists>s'. r = Inr s' \<and> s' \<noteq> [] \<and> ([] \<notin> set s \<longrightarrow> [] \<notin> set s')" by simp
      with s(3) show ?thesis by blast
    next
      case False
      with s(1) body have "r = Inr s" by simp
      with s(2) s(3) show ?thesis by simp
    qed
  qed
qed

lemma split_from_no_empty: "[] \<notin> set (split_from cur s)"
  by (induction s arbitrary: cur) auto

lemma split_no_empty: "[] \<notin> set (split s)"
  by (simp add: split_def split_from_no_empty)

lemma join_nonempty: "s \<noteq> [] \<Longrightarrow> [] \<notin> set s \<Longrightarrow> join s \<noteq> []"
  by (induction s rule: join.induct) auto

lemma split_from_Nil: "split_from cur s = [] \<longleftrightarrow> cur = [] \<and> list_all isspace_c s"
  by (induction s arbitrary: cur) auto

lemma list_all_dropWhile: "list_all P (dropWhile P xs) = list_all P xs"
  by (induction xs) auto

lemma strip_blank: "list_all isspace_c (strip s) = list_all isspace_c s"
  by (simp add: strip_def list_all_rev list_all_dropWhile)

lemma split_strip_Nil: "split (strip s) = [] \<longleftrightarrow> list_all isspace_c s"
  by (simp add: split_def split_from_Nil strip_blank)

lemma isspace_lower_c: "isspace_c (lower_c c) = isspace_c c"
  by (auto simp: isspace_c_def lower_c_def isupper_c_def of_char_of)

lemma blank_lower: "list_all isspace_c (lower s) = list_all isspace_c s"
  by (induction s) (simp_all add: lower_def isspace_lower_c)






lemma line_tokens_Nil: "line_tokens line = [] \<longleftrightarrow> blank line"
  by (simp add: line_tokens_def blank_def split_strip_Nil blank_lower)

lemma line_tokens_no_empty: "[] \<notin> set (line_tokens line)"
  by (simp add: line_tokens_def split_no_empty)

lemma finish_line_ok:
  assumes "s \<noteq> []" and "[] \<notin> set s"
  shows "\<exists>c cs. join s = c # cs \<and>
           finish_line up s =
             Inr ((if up then upper (upper_c c # cs) else upper_c c # cs) @ [CHR 0x0A])"
proof -
  from join_nonempty [OF assms] obtain c cs where j: "join s = c # cs"
    by (cases "join s") auto
  then have "finish_line up s =
             Inr ((if up then upper (upper_c c # cs) else upper_c c # cs) @ [CHR 0x0A])"
    by (simp add: finish_line_def upper_def)
  with j show ?thesis by blast
qed

lemma process_line_blank:
  assumes "blank line"
  shows "process_line res threshold line = Some (Inr [CHR 0x0A])"
proof -
  from assms have "line_tokens line = []" by (simp add: line_tokens_Nil)
  then show ?thesis by (simp add: process_line_def line_tokens_def Let_def)
qed

lemma process_line_tokens:
  assumes "\<not> blank line"
  shows "process_line res threshold line =
           (case correct res threshold (line_tokens line) of
              None \<Rightarrow> None
            | Some (Inl e) \<Rightarrow> Some (Inl e)
            | Some (Inr sent') \<Rightarrow> Some (finish_line (isupper line) sent'))"
proof -
  from assms have "line_tokens line \<noteq> []" by (simp add: line_tokens_Nil)
  then show ?thesis by (simp add: process_line_def line_tokens_def Let_def)
qed

lemma process_line_char:
  assumes "process_line res threshold line = Some r" and "\<not> blank line"
  shows "\<exists>s c cs. correct res threshold (line_tokens line) = Some (Inr s) \<and>
           s \<noteq> [] \<and> join s = c # cs \<and>
           r = Inr ((if isupper line then upper (upper_c c # cs) else upper_c c # cs) @ [CHR 0x0A])"
proof -
  have ne: "line_tokens line \<noteq> []" using assms(2) by (simp add: line_tokens_Nil)
  from assms obtain r' where r': "correct res threshold (line_tokens line) = Some r'"
    by (auto simp: process_line_tokens split: option.splits)
  from correct_result [OF r'] ne line_tokens_no_empty [of line]
  obtain s where s: "r' = Inr s" "s \<noteq> []" "[] \<notin> set s" by blast
  from finish_line_ok [OF s(2) s(3), of "isupper line"] obtain c cs where
    c: "join s = c # cs"
       "finish_line (isupper line) s =
          Inr ((if isupper line then upper (upper_c c # cs) else upper_c c # cs) @ [CHR 0x0A])"
    by blast
  from assms r' s(1) c(2)
  have "r = Inr ((if isupper line then upper (upper_c c # cs) else upper_c c # cs) @ [CHR 0x0A])"
    by (simp add: process_line_tokens)
  with r' s c(1) show ?thesis by blast
qed

lemma process_line_no_error: "process_line res threshold line \<noteq> Some (Inl e)"
proof (cases "blank line")
  case True
  then show ?thesis by (simp add: process_line_blank)
next
  case False
  show ?thesis
  proof
    assume "process_line res threshold line = Some (Inl e)"
    from process_line_char [OF this False] show False by auto
  qed
qed

lemma main_loop_char:
  assumes "main_loop res threshold lines out = Some r"
  shows "\<exists>ws. r = Inr (out @ ws) \<and>
           list_all2 (\<lambda>line w. process_line res threshold line = Some (Inr w)) lines ws"
  using assms
proof (induction lines arbitrary: out)
  case Nil
  then show ?case by simp
next
  case (Cons line lines)
  from Cons.prems process_line_no_error [of res threshold line]
  obtain w where w: "process_line res threshold line = Some (Inr w)"
    and rest: "main_loop res threshold lines (out @ [w]) = Some r"
    by (auto split: option.splits sum.splits)
  from Cons.IH [OF rest] obtain ws where
    ws: "r = Inr ((out @ [w]) @ ws)"
        "list_all2 (\<lambda>line w. process_line res threshold line = Some (Inr w)) lines ws"
    by blast
  have "r = Inr (out @ (w # ws))" using ws(1) by simp
  moreover have "list_all2 (\<lambda>line w. process_line res threshold line = Some (Inr w))
      (line # lines) (w # ws)"
    using w ws(2) by simp
  ultimately show ?case by blast
qed

lemma main_loop_total:
  assumes "\<forall>line\<in>set lines. process_line res threshold line \<noteq> None"
  shows "\<exists>r. main_loop res threshold lines out = Some r"
  using assms
proof (induction lines arbitrary: out)
  case Nil
  show ?case by simp
next
  case (Cons line lines)
  from Cons.prems obtain r where r: "process_line res threshold line = Some r" by auto
  with process_line_no_error [of res threshold line] obtain w where "r = Inr w"
    by (cases r) auto
  with r Cons.IH [of "out @ [w]"] Cons.prems show ?case by simp
qed

lemma demo_loop_step:
  "processSent [''the''] res_demo (26 / 25) = Inr ([''the''], True)"
  "processSent [''a''] res_demo (26 / 25) = Inr ([''the''], True)"
  by code_simp+

lemma demo_loop_diverges_the: "correct res_demo (26 / 25) [''the''] = None"
proof (rule ccontr)
  assume "correct res_demo (26 / 25) [''the''] \<noteq> None"
  then obtain r where r: "correct res_demo (26 / 25) [''the''] = Some r" by auto
  have "\<not> (res_demo = res_demo \<and> (26 / 25 :: real) = 26 / 25 \<and> [''the''] = [''the''])"
  proof (rule correct.raw_induct [where P = "\<lambda>res threshold sent r.
      \<not> (res = res_demo \<and> threshold = 26 / 25 \<and> sent = [''the''])", OF _ r])
    fix loop :: "resources \<Rightarrow> real \<Rightarrow> sentence \<Rightarrow> (error + sentence) option"
    fix res threshold sent r
    assume IH: "\<And>res threshold sent r. loop res threshold sent = Some r \<Longrightarrow>
      \<not> (res = res_demo \<and> threshold = 26 / 25 \<and> sent = [''the''])"
    assume body: "(case processSent sent res threshold of
        Inl e \<Rightarrow> Some (Inl e)
      | Inr r \<Rightarrow> if snd r then loop res threshold (fst r) else Some (Inr (fst r))) = Some r"
    show "\<not> (res = res_demo \<and> threshold = 26 / 25 \<and> sent = [''the''])"
    proof
      assume a: "res = res_demo \<and> threshold = 26 / 25 \<and> sent = [''the'']"
      with body have "loop res_demo (26 / 25) [''the''] = Some r"
        by (simp add: demo_loop_step)
      from IH [OF this] show False by simp
    qed
  qed
  then show False by simp
qed

lemma demo_loop_diverges: "correct res_demo (26 / 25) [''a''] = None"
  by (subst correct.simps) (simp add: demo_loop_step demo_loop_diverges_the)

lemma demo_tokens:
  "line_tokens ''she bought a apple\<newline>'' = [''she'', ''bought'', ''a'', ''apple'']"
  "line_tokens ''SHE BOUGHT A APPLE'' = [''she'', ''bought'', ''a'', ''apple'']"
  "line_tokens ''a\<newline>'' = [''a'']"
  by code_simp+

lemma demo_blank:
  "\<not> blank ''she bought a apple\<newline>''"
  "blank [CHR 0x0A]"
  "\<not> blank ''SHE BOUGHT A APPLE''"
  "\<not> blank ''a\<newline>''"
  by code_simp+


lemma demo_correct:
  "correct res_demo (24 / 25) [''she'', ''bought'', ''a'', ''apple''] =
     Some (Inr [''she'', ''bought'', ''an'', ''apple''])"
  by code_simp

lemma demo_main:
  "main res_demo (24 / 25)
     [''she bought a apple\<newline>'', [CHR 0x0A], ''SHE BOUGHT A APPLE''] =
   Some (Inr [''She bought an apple\<newline>'', [CHR 0x0A],
              ''SHE BOUGHT AN APPLE\<newline>''])"
  by code_simp


text \<open>
  Claim C6, as amended: when the correction loop ends on every non-blank line of the
  input, \<open>main\<close> finishes without an exception and has written exactly one string per
  input line, in order, each ending in a newline: the newline alone for a line with no
  non-whitespace content, and for every other line the corrected sentence that
  \<open>finish_line\<close> builds from the result of the loop.
\<close>

theorem main_line_alignment:
  assumes "\<forall>line\<in>set lines. \<not> blank line \<longrightarrow> correct res threshold (line_tokens line) \<noteq> None"
  shows "\<exists>out. main res threshold lines = Some (Inr out) \<and> length out = length lines \<and>
     (\<forall>i<length lines.
        (\<exists>body. out ! i = body @ [CHR 0x0A]) \<and>
        (blank (lines ! i) \<longrightarrow> out ! i = [CHR 0x0A]) \<and>
        (\<not> blank (lines ! i) \<longrightarrow>
           (\<exists>s. correct res threshold (line_tokens (lines ! i)) = Some (Inr s) \<and>
                finish_line (isupper (lines ! i)) s = Inr (out ! i))))"
proof -
  have "\<forall>line\<in>set lines. process_line res threshold line \<noteq> None"
  proof
    fix line assume l: "line \<in> set lines"
    show "process_line res threshold line \<noteq> None"
    proof (cases "blank line")
      case True
      then show ?thesis by (simp add: process_line_blank)
    next
      case False
      with assms l have "correct res threshold (line_tokens line) \<noteq> None" by blast
      with False show ?thesis
        by (auto simp: process_line_tokens split: option.splits sum.splits)
    qed
  qed
  from main_loop_total [OF this, of "[]"] obtain r where
    r: "main_loop res threshold lines [] = Some r" by blast
  from main_loop_char [OF r] obtain out where
    out: "r = Inr out"
         "list_all2 (\<lambda>line w. process_line res threshold line = Some (Inr w)) lines out"
    by auto
  from out(2) have len: "length out = length lines"
    by (simp add: list_all2_lengthD)
  have each: "\<forall>i<length lines.
        (\<exists>body. out ! i = body @ [CHR 0x0A]) \<and>
        (blank (lines ! i) \<longrightarrow> out ! i = [CHR 0x0A]) \<and>
        (\<not> blank (lines ! i) \<longrightarrow>
           (\<exists>s. correct res threshold (line_tokens (lines ! i)) = Some (Inr s) \<and>
                finish_line (isupper (lines ! i)) s = Inr (out ! i)))"
  proof (intro allI impI conjI)
    fix i assume i: "i < length lines"
    from list_all2_nthD [OF out(2) i]
    have p: "process_line res threshold (lines ! i) = Some (Inr (out ! i))" .
    show "\<exists>body. out ! i = body @ [CHR 0x0A]"
    proof (cases "blank (lines ! i)")
      case True
      from process_line_blank [OF True, of res threshold] p
      have "out ! i = [] @ [CHR 0x0A]" by simp
      then show ?thesis by blast
    next
      case False
      from process_line_char [OF p False] show ?thesis by blast
    qed
  next
    fix i assume i: "i < length lines" and b: "blank (lines ! i)"
    from list_all2_nthD [OF out(2) i]
    have "process_line res threshold (lines ! i) = Some (Inr (out ! i))" .
    with process_line_blank [OF b, of res threshold] show "out ! i = [CHR 0x0A]" by simp
  next
    fix i assume i: "i < length lines" and nb: "\<not> blank (lines ! i)"
    from list_all2_nthD [OF out(2) i]
    have p: "process_line res threshold (lines ! i) = Some (Inr (out ! i))" .
    from process_line_char [OF p nb] obtain s where
      s: "correct res threshold (line_tokens (lines ! i)) = Some (Inr s)" by blast
    with p nb have "finish_line (isupper (lines ! i)) s = Inr (out ! i)"
      by (simp add: process_line_tokens)
    with s show "\<exists>s. correct res threshold (line_tokens (lines ! i)) = Some (Inr s) \<and>
                finish_line (isupper (lines ! i)) s = Inr (out ! i)"
      by blast
  qed
  from r out(1) len each show ?thesis by (simp add: main_def)
qed

theorem main_line_alignment_witness:
  "correct res_demo (24 / 25) (line_tokens ''she bought a apple\<newline>'') \<noteq> None \<and>
   blank [CHR 0x0A] \<and>
   correct res_demo (24 / 25) (line_tokens ''SHE BOUGHT A APPLE'') \<noteq> None \<and>
   main res_demo (24 / 25)
     [''she bought a apple\<newline>'', [CHR 0x0A], ''SHE BOUGHT A APPLE''] =
   Some (Inr [''She bought an apple\<newline>'', [CHR 0x0A],
              ''SHE BOUGHT AN APPLE\<newline>'']) \<and>
   (\<exists>out. main res_demo (24 / 25)
       [''she bought a apple\<newline>'', [CHR 0x0A], ''SHE BOUGHT A APPLE''] =
       Some (Inr out) \<and>
     length out = length [''she bought a apple\<newline>'', [CHR 0x0A], ''SHE BOUGHT A APPLE''])"
proof -
  have c1: "correct res_demo (24 / 25) (line_tokens ''she bought a apple\<newline>'') \<noteq> None"
    by (simp add: demo_tokens demo_correct)
  have c2: "correct res_demo (24 / 25) (line_tokens ''SHE BOUGHT A APPLE'') \<noteq> None"
    by (simp add: demo_tokens demo_correct)
  have hyp: "\<forall>line\<in>set [''she bought a apple\<newline>'', [CHR 0x0A], ''SHE BOUGHT A APPLE''].
      \<not> blank line \<longrightarrow> correct res_demo (24 / 25) (line_tokens line) \<noteq> None"
    using c1 c2 demo_blank(2) by simp
  from main_line_alignment [OF hyp]
  have "\<exists>out. main res_demo (24 / 25)
       [''she bought a apple\<newline>'', [CHR 0x0A], ''SHE BOUGHT A APPLE''] =
       Some (Inr out) \<and>
     length out = length [''she bought a apple\<newline>'', [CHR 0x0A], ''SHE BOUGHT A APPLE'']"
    by blast
  with c1 c2 demo_blank(2) demo_main show ?thesis by blast
qed

text \<open>
  The claim as stated fails: with the weight \<open>26 / 25\<close> and this language model the
  hypothesis \<open>the\<close> is eligible in every sweep of the line \<open>a\<close>, the loop never ends, and
  \<open>main\<close> produces no output for the line.
\<close>

theorem main_line_alignment_counterexample:
  "main res_demo (26 / 25) [''a\<newline>''] = None"
  by (simp add: main_def process_line_tokens demo_blank demo_tokens demo_loop_diverges)



text \<open>
  Claim C9: the correction loop started on a non-empty token list raises no exception
  and, when it ends, ends with a non-empty token list; when no token of the input is
  the empty string, as for the tokens \<open>main\<close> makes of a line, the joined sentence is a
  non-empty string and the capitalisation step succeeds.
\<close>

theorem correct_nonempty:
  assumes "sent \<noteq> []" and "correct res threshold sent = Some r"
  shows "\<exists>s. r = Inr s \<and> s \<noteq> [] \<and>
           ([] \<notin> set sent \<longrightarrow> join s \<noteq> [] \<and> (\<exists>w. finish_line up s = Inr w)) \<and>
           (sent = line_tokens line \<longrightarrow> join s \<noteq> [] \<and> (\<exists>w. finish_line up s = Inr w))"
proof -
  from correct_result [OF assms(2)] assms(1) obtain s where
    s: "r = Inr s" "s \<noteq> []" "[] \<notin> set sent \<longrightarrow> [] \<notin> set s" by blast
  have a: "[] \<notin> set sent \<longrightarrow> join s \<noteq> [] \<and> (\<exists>w. finish_line up s = Inr w)"
  proof
    assume "[] \<notin> set sent"
    with s(3) have ns: "[] \<notin> set s" by simp
    from finish_line_ok [OF s(2) ns, of up] join_nonempty [OF s(2) ns]
    show "join s \<noteq> [] \<and> (\<exists>w. finish_line up s = Inr w)" by blast
  qed
  then have "sent = line_tokens line \<longrightarrow> join s \<noteq> [] \<and> (\<exists>w. finish_line up s = Inr w)"
    using line_tokens_no_empty [of line] by blast
  with s(1) s(2) a show ?thesis by blast
qed

theorem correct_nonempty_witness:
  "[''she'', ''bought'', ''a'', ''apple''] \<noteq> [] \<and>
   correct res_demo (24 / 25) [''she'', ''bought'', ''a'', ''apple''] =
     Some (Inr [''she'', ''bought'', ''an'', ''apple'']) \<and>
   [''she'', ''bought'', ''a'', ''apple''] = line_tokens ''SHE BOUGHT A APPLE'' \<and>
   join [''she'', ''bought'', ''an'', ''apple''] \<noteq> []"
proof -
  have ne: "[''she'', ''bought'', ''a'', ''apple''] \<noteq> []" by simp
  from correct_nonempty [OF ne demo_correct, of False "''SHE BOUGHT A APPLE''"] demo_tokens(2)
  have "join [''she'', ''bought'', ''an'', ''apple''] \<noteq> []" by auto
  with ne demo_correct demo_tokens(2) show ?thesis by simp
qed

section \<open>Properties of loadWordFormDict\<close>

lemma split_str_no_sep: "\<not> has_sep s \<Longrightarrow> split_str '': '' s = [s]"
  by (induction s) auto

lemma not_well_formed_no_sep: "\<not> has_sep entry \<Longrightarrow> \<not> well_formed entry"
  by (simp add: well_formed_def split_str_no_sep)

lemma parse_entry_error: "parse_entry entry = Inl e \<Longrightarrow> e = IndexError"
  by (auto simp: parse_entry_def Let_def split: list.splits)

lemma parse_entry_well_formed:
  "well_formed entry \<longleftrightarrow> (\<exists>p. parse_entry entry = Inr p)"
  by (auto simp: parse_entry_def well_formed_def Let_def split: list.splits)

lemma parse_entry_malformed:
  "\<not> well_formed entry \<longleftrightarrow> parse_entry entry = Inl IndexError"
  using parse_entry_well_formed [of entry] parse_entry_error [of entry]
  by (cases "parse_entry entry") auto


lemma load_entries_abort:
  assumes "\<exists>entry\<in>set entries. \<not> well_formed entry"
  shows "load_entries entries d = Inl IndexError"
  using assms
proof (induction entries arbitrary: d)
  case Nil
  then show ?case by simp
next
  case (Cons entry entries)
  show ?case
  proof (cases "parse_entry entry")
    case (Inl e)
    with parse_entry_error [OF Inl] show ?thesis by simp
  next
    case (Inr p)
    then have "well_formed entry" using parse_entry_well_formed by blast
    with Cons.prems have "\<exists>entry\<in>set entries. \<not> well_formed entry" by simp
    from Cons.IH [OF this] Inr show ?thesis by (simp split: prod.splits)
  qed
qed

lemma load_entries_total:
  assumes "\<forall>entry\<in>set entries. well_formed entry"
  shows "\<exists>d'. load_entries entries d = Inr d'"
  using assms
proof (induction entries arbitrary: d)
  case Nil
  show ?case by simp
next
  case (Cons entry entries)
  from Cons.prems have "well_formed entry" by simp
  then obtain w S where p: "parse_entry entry = Inr (w, S)"
    using parse_entry_well_formed by fastforce
  from Cons.prems have "\<forall>entry\<in>set entries. well_formed entry" by simp
  from Cons.IH [OF this, of "d(w \<mapsto> S)"] obtain d' where
    "load_entries entries (d(w \<mapsto> S)) = Inr d'" ..
  with p have "load_entries (entry # entries) d = Inr d'" by simp
  then show ?case by blast
qed



lemma demo_parse:
  "parse_entry ''run V: ran 3, runs {x y} | running'' =
     Inr (''run'', {''run'', ''ran'', ''3'', ''runs'', ''running''})"
  "parse_entry ''bad line'' = Inl IndexError"
  "parse_entry ''be V: was, were | been'' = Inr (''be'', {''be'', ''was'', ''were'', ''been''})"
  by code_simp+

lemma demo_entries:
  "split_str ''\<newline>'' (strip ''run V: ran 3, runs {x y} | running\<newline>bad line\<newline>be V: was, were | been\<newline>'') =
     [''run V: ran 3, runs {x y} | running'', ''bad line'', ''be V: was, were | been'']"
  "split_str ''\<newline>'' (strip ''run V: ran 3, runs {x y} | running\<newline>be V: was, were | been\<newline>'') =
     [''run V: ran 3, runs {x y} | running'', ''be V: was, were | been'']"
  by code_simp+

lemma demo_well_formed:
  "well_formed ''run V: ran 3, runs {x y} | running''"
  "\<not> well_formed ''bad line''"
  "well_formed ''be V: was, were | been''"
  "\<not> has_sep ''bad line''"
  by code_simp+

lemma demo_load_abort:
  "loadWordFormDict ''run V: ran 3, runs {x y} | running\<newline>bad line\<newline>be V: was, were | been\<newline>'' =
     Inl IndexError"
  by (simp add: loadWordFormDict_def demo_entries demo_parse)

text \<open>
  Claim C3, as amended: a line without the separator \<open>": "\<close>, or with no word before
  it, makes \<open>loadWordFormDict\<close> raise IndexError, and the whole load is lost; the loader
  returns a dictionary exactly when every line of the file is well-formed.
\<close>

theorem loadWordFormDict_malformed_aborts:
  "((\<exists>entry\<in>set (split_str ''\<newline>'' (strip content)). \<not> well_formed entry) \<longrightarrow>
      loadWordFormDict content = Inl IndexError) \<and>
   ((\<forall>entry\<in>set (split_str ''\<newline>'' (strip content)). well_formed entry) \<longrightarrow>
      (\<exists>form_dict. loadWordFormDict content = Inr form_dict)) \<and>
   (\<not> has_sep entry \<longrightarrow> \<not> well_formed entry)"
  using load_entries_abort [of "split_str ''\<newline>'' (strip content)" Map.empty]
    load_entries_total [of "split_str ''\<newline>'' (strip content)" Map.empty]
    not_well_formed_no_sep [of entry]
  unfolding loadWordFormDict_def by blast

theorem loadWordFormDict_malformed_aborts_witness:
  "\<not> has_sep ''bad line'' \<and> \<not> well_formed ''bad line'' \<and>
   ''bad line'' \<in> set (split_str ''\<newline>''
      (strip ''run V: ran 3, runs {x y} | running\<newline>bad line\<newline>be V: was, were | been\<newline>'')) \<and>
   loadWordFormDict ''run V: ran 3, runs {x y} | running\<newline>bad line\<newline>be V: was, were | been\<newline>'' =
     Inl IndexError \<and>
   well_formed ''run V: ran 3, runs {x y} | running'' \<and> well_formed ''be V: was, were | been'' \<and>
   (\<exists>form_dict. loadWordFormDict ''run V: ran 3, runs {x y} | running\<newline>be V: was, were | been\<newline>'' =
      Inr form_dict)"
proof -
  let ?bad = "''run V: ran 3, runs {x y} | running\<newline>bad line\<newline>be V: was, were | been\<newline>''"
  let ?good = "''run V: ran 3, runs {x y} | running\<newline>be V: was, were | been\<newline>''"
  have m: "''bad line'' \<in> set (split_str ''\<newline>'' (strip ?bad))"
    by (simp add: demo_entries)
  with demo_well_formed(2)
  have ex: "\<exists>entry\<in>set (split_str ''\<newline>'' (strip ?bad)). \<not> well_formed entry" by blast
  have "\<forall>entry\<in>set (split_str ''\<newline>'' (strip ?good)). well_formed entry"
    by (simp add: demo_entries demo_well_formed)
  with loadWordFormDict_malformed_aborts [of ?good "''bad line''"]
  have g: "\<exists>form_dict. loadWordFormDict ?good = Inr form_dict" by blast
  from loadWordFormDict_malformed_aborts [of ?bad "''bad line''"] ex
  have b: "loadWordFormDict ?bad = Inl IndexError" by blast
  from m g b demo_well_formed show ?thesis by blast
qed

text \<open>
  The claim as stated fails: the second line of this file has no \<open>": "\<close>; the other two
  are well-formed, and the loader returns IndexError, not their dictionary.
\<close>

theorem loadWordFormDict_skip_counterexample:
  "parse_entry ''run V: ran 3, runs {x y} | running'' =
     Inr (''run'', {''run'', ''ran'', ''3'', ''runs'', ''running''}) \<and>
   parse_entry ''bad line'' = Inl IndexError \<and>
   parse_entry ''be V: was, were | been'' = Inr (''be'', {''be'', ''was'', ''were'', ''been''}) \<and>
   loadWordFormDict ''run V: ran 3, runs {x y} | running\<newline>bad line\<newline>be V: was, were | been\<newline>'' =
     Inl IndexError"
  using demo_parse demo_load_abort by blast



end
